theory Spec2Isabelle
  imports Main
begin

section \<open>Table-aware chunking of banking documents\<close>

text \<open>
  A shallow embedding of the class \<open>BankingDocumentSplitter\<close> of the document
  processor: detection of table seeds with five regular expressions, expansion of a seed
  to a region (\<open>expandTableContext\<close>), merging of regions
  (\<open>mergeOverlappingSections\<close>) and the interleaved emission of text chunks and
  table chunks (\<open>splitTextIntoDocuments\<close>).

  A text is a \<open>string\<close>: a list of code units below 256. The character classes of
  the regular expressions are the JavaScript ones restricted to that range. Offsets are
  natural numbers; every offset the program computes is non-negative.

  A loop whose exit the code does not bound is a partial function with values in
  \<open>option\<close>: \<open>None\<close> is the call that never returns. The only mutable state of an
  instance, the \<open>lastIndex\<close> of its global regular expressions, is passed through
  every call and returned. The generic splitter of the library, which the class extends,
  is not part of the repository and is a parameter of the model.
\<close>

subsection \<open>Strings\<close>

definition newline :: char where
  "newline = CHR 0x0A"

text \<open>The line terminators of JavaScript (LF and CR below 256): what \<open>.\<close> refuses
  and where \<open>^\<close> and \<open>$\<close> hold under the flag \<open>m\<close>.\<close>

definition isLineTerminator :: "char \<Rightarrow> bool" where
  "isLineTerminator c = (c = CHR 0x0A \<or> c = CHR 0x0D)"

text \<open>The class \<open>\s\<close>, which is also what \<open>trim\<close> strips: TAB, LF, VT, FF, CR,
  space and the no-break space.\<close>

definition isWhiteSpace :: "char \<Rightarrow> bool" where
  "isWhiteSpace c =
     (c = CHR 0x09 \<or> c = CHR 0x0A \<or> c = CHR 0x0B \<or> c = CHR 0x0C \<or> c = CHR 0x0D \<or>
      c = CHR 0x20 \<or> c = CHR 0xA0)"

text \<open>\<open>text.slice(a, b)\<close> for offsets \<open>0 \<le> a\<close>, \<open>0 \<le> b\<close>: both are clamped to
  the length, and the result is empty when \<open>b \<le> a\<close>.\<close>

definition slice :: "string \<Rightarrow> nat \<Rightarrow> nat \<Rightarrow> string" where
  "slice text a b = take (b - a) (drop a text)"

definition trim :: "string \<Rightarrow> string" where
  "trim s = rev (dropWhile isWhiteSpace (rev (dropWhile isWhiteSpace s)))"

text \<open>\<open>text.indexOf(c, from)\<close>: the first offset at or after \<open>from\<close> that holds
  \<open>c\<close>; \<open>None\<close> stands for the result \<open>-1\<close>.\<close>

fun indexFrom :: "string \<Rightarrow> char \<Rightarrow> nat \<Rightarrow> nat option" where
  "indexFrom [] c i = None"
| "indexFrom (x # xs) c i = (if x = c then Some i else indexFrom xs c (Suc i))"

definition indexOf :: "string \<Rightarrow> char \<Rightarrow> nat \<Rightarrow> nat option" where
  "indexOf text c from = indexFrom (drop from text) c from"

text \<open>\<open>text.lastIndexOf(c, from)\<close>: the search runs backwards from offset
  \<open>from\<close>, that offset included, and returns the first offset that holds \<open>c\<close>;
  offsets past the end hold nothing. \<open>None\<close> stands for \<open>-1\<close>.\<close>

primrec lastIndexOf :: "string \<Rightarrow> char \<Rightarrow> nat \<Rightarrow> nat option" where
  "lastIndexOf text c 0 = (if 0 < length text \<and> text ! 0 = c then Some 0 else None)"
| "lastIndexOf text c (Suc i) =
     (if Suc i < length text \<and> text ! Suc i = c then Some (Suc i) else lastIndexOf text c i)"

subsection \<open>Regular expressions\<close>

text \<open>
  The patterns of the program use literal characters, the classes \<open>\d\<close>, \<open>\s\<close>,
  \<open>[A-Z]\<close>, \<open>.\<close> and bracketed unions of them, the greedy quantifiers \<open>*\<close> and
  \<open>+\<close> on a single class, and the assertions \<open>^\<close> and \<open>$\<close>.
\<close>

datatype cls = Lit char | Digit | Upper | Space | Dot | Alt cls cls

fun in_cls :: "cls \<Rightarrow> char \<Rightarrow> bool" where
  "in_cls (Lit c) x = (x = c)"
| "in_cls Digit x = (48 \<le> (of_char x :: nat) \<and> (of_char x :: nat) \<le> 57)"
| "in_cls Upper x = (65 \<le> (of_char x :: nat) \<and> (of_char x :: nat) \<le> 90)"
| "in_cls Space x = isWhiteSpace x"
| "in_cls Dot x = (\<not> isLineTerminator x)"
| "in_cls (Alt a b) x = (in_cls a x \<or> in_cls b x)"

datatype node = Chr cls | Star cls | Plus cls | Bol | Eol

text \<open>A literal word: one \<open>Chr (Lit c)\<close> per character.\<close>

definition word :: "string \<Rightarrow> node list" where
  "word s = map (\<lambda>c. Chr (Lit c)) s"

text \<open>
  The backtracking matcher: \<open>rmatch m ns prev s\<close> matches the nodes \<open>ns\<close> at the
  start of \<open>s\<close>, where \<open>prev\<close> is the character before \<open>s\<close> in the whole text
  (\<open>None\<close> at offset 0) and \<open>m\<close> the multiline flag. It returns the number of
  characters of the first successful alternative in the order JavaScript tries them: a
  greedy quantifier first takes one more character and gives it back only when the rest of
  the pattern fails.
\<close>

fun rmatch :: "bool \<Rightarrow> node list \<Rightarrow> char option \<Rightarrow> string \<Rightarrow> nat option" where
  "rmatch m [] prev s = Some 0"
| "rmatch m (Chr c # ns) prev [] = None"
| "rmatch m (Chr c # ns) prev (x # xs) =
     (if in_cls c x then map_option Suc (rmatch m ns (Some x) xs) else None)"
| "rmatch m (Plus c # ns) prev [] = None"
| "rmatch m (Plus c # ns) prev (x # xs) =
     (if in_cls c x then map_option Suc (rmatch m (Star c # ns) (Some x) xs) else None)"
| "rmatch m (Star c # ns) prev [] = rmatch m ns prev []"
| "rmatch m (Star c # ns) prev (x # xs) =
     (if in_cls c x
      then (case rmatch m (Star c # ns) (Some x) xs of
              Some n \<Rightarrow> Some (Suc n)
            | None \<Rightarrow> rmatch m ns prev (x # xs))
      else rmatch m ns prev (x # xs))"
| "rmatch m (Bol # ns) None s = rmatch m ns None s"
| "rmatch m (Bol # ns) (Some p) s =
     (if m \<and> isLineTerminator p then rmatch m ns (Some p) s else None)"
| "rmatch m (Eol # ns) prev [] = rmatch m ns prev []"
| "rmatch m (Eol # ns) prev (x # xs) =
     (if m \<and> isLineTerminator x then rmatch m ns prev (x # xs) else None)"

text \<open>The search for the first offset at or after \<open>i\<close> where the pattern matches;
  the offset just past the end of the text is tried as well. The result is the offset of
  the match and the offset of its end.\<close>

fun rsearch :: "bool \<Rightarrow> node list \<Rightarrow> char option \<Rightarrow> string \<Rightarrow> nat \<Rightarrow> (nat \<times> nat) option" where
  "rsearch m ns prev [] i =
     (case rmatch m ns prev [] of Some n \<Rightarrow> Some (i, i + n) | None \<Rightarrow> None)"
| "rsearch m ns prev (x # xs) i =
     (case rmatch m ns prev (x # xs) of
        Some n \<Rightarrow> Some (i, i + n)
      | None \<Rightarrow> rsearch m ns (Some x) xs (Suc i))"

text \<open>A regular expression object: its pattern, its flags and the mutable
  \<open>lastIndex\<close> that a global expression carries from one \<open>exec\<close> to the next.\<close>

record regexp =
  source :: "node list"
  multiline :: bool
  lastIndex :: nat

definition prevChar :: "string \<Rightarrow> nat \<Rightarrow> char option" where
  "prevChar text i = (if i = 0 then None else Some (text ! (i - 1)))"

text \<open>\<open>pattern.exec(text)\<close> of an expression with the flag \<open>g\<close>: the search starts
  at \<open>lastIndex\<close>; a match sets \<open>lastIndex\<close> to its end and returns its offset and
  its text; a failure resets \<open>lastIndex\<close> to 0 and returns null (\<open>None\<close>).\<close>

definition exec :: "regexp \<Rightarrow> string \<Rightarrow> (nat \<times> string) option \<times> regexp" where
  "exec re text =
     (if lastIndex re > length text then (None, re\<lparr>lastIndex := 0\<rparr>)
      else (case rsearch (multiline re) (source re) (prevChar text (lastIndex re))
                   (drop (lastIndex re) text) (lastIndex re) of
              None \<Rightarrow> (None, re\<lparr>lastIndex := 0\<rparr>)
            | Some (i, e) \<Rightarrow> (Some (i, slice text i e), re\<lparr>lastIndex := e\<rparr>)))"

text \<open>\<open>/.../.test(s)\<close> of an expression without the flag \<open>g\<close>: the search starts
  at offset 0 and leaves no state behind.\<close>

definition test :: "bool \<Rightarrow> node list \<Rightarrow> string \<Rightarrow> bool" where
  "test m ns s = (rsearch m ns None s 0 \<noteq> None)"

subsection \<open>The patterns of the splitter\<close>

text \<open>\<open>/Table \d+\.\d+/g\<close>, \<open>/Schedule [A-Z]+/g\<close>, \<open>/Exhibit \d+/g\<close>,
  \<open>/\|.*\|/g\<close> and \<open>/^[\|\s]*[-\s\|\:]+[\|\s]*$/gm\<close>, in this order.\<close>

definition pipeOrSpace :: cls where
  "pipeOrSpace = Alt (Lit (CHR ''|'')) Space"

definition tableCaption :: "node list" where
  "tableCaption = word ''Table '' @ [Plus Digit, Chr (Lit (CHR ''.'')), Plus Digit]"

definition scheduleCaption :: "node list" where
  "scheduleCaption = word ''Schedule '' @ [Plus Upper]"

definition exhibitCaption :: "node list" where
  "exhibitCaption = word ''Exhibit '' @ [Plus Digit]"

definition tableRow :: "node list" where
  "tableRow = [Chr (Lit (CHR ''|'')), Star Dot, Chr (Lit (CHR ''|''))]"

definition tableSeparator :: "node list" where
  "tableSeparator =
     [Bol, Star pipeOrSpace,
      Plus (Alt (Lit (CHR ''-'')) (Alt Space (Alt (Lit (CHR ''|'')) (Lit (CHR '':''))))),
      Star pipeOrSpace, Eol]"

text \<open>The first pattern of \<open>isTableLine\<close>, \<open>/^[\|\s]*[\|\-\:\s]+[\|\s]*$/\<close>
  (neither \<open>g\<close> nor \<open>m\<close>); its second pattern is \<open>tableRow\<close> again.\<close>

definition separatorLine :: "node list" where
  "separatorLine =
     [Bol, Star pipeOrSpace,
      Plus (Alt (Lit (CHR ''|'')) (Alt (Lit (CHR ''-'')) (Alt (Lit (CHR '':'')) Space))),
      Star pipeOrSpace, Eol]"

record splitter =
  tablePatterns :: "regexp list"

text \<open>The instance the constructor builds: every \<open>lastIndex\<close> is 0.\<close>

definition newSplitter :: splitter where
  "newSplitter =
     \<lparr>tablePatterns =
        [\<lparr>source = tableCaption, multiline = False, lastIndex = 0\<rparr>,
         \<lparr>source = scheduleCaption, multiline = False, lastIndex = 0\<rparr>,
         \<lparr>source = exhibitCaption, multiline = False, lastIndex = 0\<rparr>,
         \<lparr>source = tableRow, multiline = False, lastIndex = 0\<rparr>,
         \<lparr>source = tableSeparator, multiline = True, lastIndex = 0\<rparr>]\<rparr>"

subsection \<open>Region expansion\<close>

definition isTableLine :: "string \<Rightarrow> bool" where
  "isTableLine line = (test False separatorLine (trim line) \<or> test False tableRow line)"

definition findLineStart :: "string \<Rightarrow> nat \<Rightarrow> nat" where
  "findLineStart text index =
     (case lastIndexOf text newline index of None \<Rightarrow> 0 | Some lineStart \<Rightarrow> lineStart + 1)"

definition findLineEnd :: "string \<Rightarrow> nat \<Rightarrow> nat" where
  "findLineEnd text index =
     (case indexOf text newline index of None \<Rightarrow> length text | Some lineEnd \<Rightarrow> lineEnd)"

text \<open>The two \<open>while\<close> loops of \<open>expandTableContext\<close>. Nothing in their form
  bounds the number of iterations, so each is a partial function: \<open>None\<close> is the loop
  that never exits. The state of the first loop is \<open>(start, prevLine)\<close>, of the second
  \<open>(end, nextLine)\<close>; the body of the first runs only when \<open>prevLine > 0\<close>, so
  \<open>start - 1\<close> is not negative there.\<close>

partial_function (option) expandBackward :: "string \<Rightarrow> nat \<Rightarrow> nat \<Rightarrow> nat option" where
  "expandBackward text start prevLine =
     (if prevLine > 0 \<and> isTableLine (slice text prevLine (findLineEnd text prevLine))
      then expandBackward text prevLine (findLineStart text (prevLine - 1))
      else Some start)"

partial_function (option) expandForward :: "string \<Rightarrow> nat \<Rightarrow> nat \<Rightarrow> nat option" where
  "expandForward text end' nextLine =
     (if nextLine < length text \<and>
         isTableLine (slice text (findLineStart text nextLine) nextLine)
      then expandForward text nextLine (findLineEnd text (nextLine + 1))
      else Some end')"

declare expandBackward.simps [code]
declare expandForward.simps [code]

definition expandTableContext :: "string \<Rightarrow> nat \<Rightarrow> (nat \<times> nat) option" where
  "expandTableContext text startIndex =
     (case expandBackward text startIndex (findLineStart text startIndex) of
        None \<Rightarrow> None
      | Some start \<Rightarrow>
          (case expandForward text startIndex (findLineEnd text startIndex) of
             None \<Rightarrow> None
           | Some end' \<Rightarrow> Some (start, end')))"

subsection \<open>Regions and their merging\<close>

record table_section =
  start :: nat
  end' :: nat
  header :: string

text \<open>The loop of \<open>mergeOverlappingSections\<close> over \<open>sections[1..]\<close>. The array
  \<open>merged\<close> is never empty, and \<open>last\<close> is its last element, which the first
  branch updates in place.\<close>

fun mergeLoop :: "table_section list \<Rightarrow> table_section list \<Rightarrow> table_section list" where
  "mergeLoop merged [] = merged"
| "mergeLoop merged (current # rest) =
     (if start current \<le> end' (last merged) + 50
      then mergeLoop
             (butlast merged @
                [(last merged)\<lparr>end' := max (end' (last merged)) (end' current),
                                header := header (last merged) @ '', '' @ header current\<rparr>])
             rest
      else mergeLoop (merged @ [current]) rest)"

text \<open>\<open>Array.prototype.sort\<close> with the comparator \<open>a.start - b.start\<close> is a
  stable sort by \<open>start\<close>, as \<open>sort_key\<close> is. The sorted array is empty exactly
  when \<open>sections\<close> is, which is the early return of the source.\<close>

definition mergeOverlappingSections :: "table_section list \<Rightarrow> table_section list" where
  "mergeOverlappingSections sections =
     (case sort_key start sections of
        [] \<Rightarrow> []
      | first # rest \<Rightarrow> mergeLoop [first] rest)"

subsection \<open>Detection\<close>

text \<open>The loop \<open>while ((match = pattern.exec(text)) !== null)\<close> for one pattern. It
  returns the sections collected so far and the pattern object as the loop leaves it;
  \<open>None\<close> when the loop, or a call of \<open>expandTableContext\<close> in it, never returns.\<close>

partial_function (option) matchLoop ::
  "string \<Rightarrow> regexp \<Rightarrow> table_section list \<Rightarrow> (table_section list \<times> regexp) option" where
  "matchLoop text pattern sections =
     (case exec pattern text of
        (None, pattern') \<Rightarrow> Some (sections, pattern')
      | (Some (index, matched), pattern') \<Rightarrow>
          (case expandTableContext text index of
             None \<Rightarrow> None
           | Some (s, e) \<Rightarrow>
               matchLoop text pattern'
                 (sections @ [\<lparr>start = s, end' = e, header = matched\<rparr>])))"

declare matchLoop.simps [code]

text \<open>The loop \<open>for (const pattern of this.tablePatterns)\<close>.\<close>

fun patternLoop ::
  "string \<Rightarrow> regexp list \<Rightarrow> table_section list \<Rightarrow> (table_section list \<times> regexp list) option" where
  "patternLoop text [] sections = Some (sections, [])"
| "patternLoop text (pattern # patterns) sections =
     (case matchLoop text pattern sections of
        None \<Rightarrow> None
      | Some (sections1, pattern') \<Rightarrow>
          (case patternLoop text patterns sections1 of
             None \<Rightarrow> None
           | Some (sections2, patterns') \<Rightarrow> Some (sections2, pattern' # patterns')))"

definition findTableSections ::
  "splitter \<Rightarrow> string \<Rightarrow> (table_section list \<times> splitter) option" where
  "findTableSections this text =
     (case patternLoop text (tablePatterns this) [] of
        None \<Rightarrow> None
      | Some (sections, patterns') \<Rightarrow>
          Some (mergeOverlappingSections sections, this\<lparr>tablePatterns := patterns'\<rparr>))"

subsection \<open>Chunks\<close>

text \<open>A document of the library: its text and its metadata, an object with string keys.
  The values the splitter writes are strings; \<open>Other\<close> holds whatever else the library
  stores.\<close>

datatype 'v jsvalue = Str string | Other 'v

record 'v document =
  pageContent :: string
  metadata :: "(string \<times> 'v jsvalue) list"

text \<open>The options the constructor passes to the generic recursive splitter it
  extends.\<close>

record splitter_params =
  chunkSize :: nat
  chunkOverlap :: nat
  separators :: "string list"

definition superParams :: splitter_params where
  "superParams =
     \<lparr>chunkSize = 1000, chunkOverlap = 200,
      separators = [[newline, newline], [newline], ''|'', '' '', '''']\<rparr>"

text \<open>The parameters \<open>start\<close>, \<open>end\<close> and \<open>header\<close> of
  \<open>createTableChunk\<close> are \<open>from\<close>, \<open>to\<close> and \<open>hdr\<close> here, the source's names
  being the fields of a region.\<close>

definition createTableChunk :: "string \<Rightarrow> nat \<Rightarrow> nat \<Rightarrow> string \<Rightarrow> 'v document" where
  "createTableChunk text from to hdr =
     (let tableText = slice text from to;
          contextBefore = slice text (nat (max 0 (int from - 200))) from;
          contextAfter = slice text to (min (length text) (to + 200));
          content = contextBefore @ [newline, newline] @ ''[TABLE: '' @ hdr @ '']'' @
                    [newline] @ tableText @ [newline] @ ''[END TABLE]'' @
                    [newline, newline] @ contextAfter
      in \<lparr>pageContent = content,
          metadata = [(''type'', Str ''table''), (''header'', Str hdr),
                      (''table_content'', Str tableText)]\<rparr>)"

text \<open>
  \<open>super.createDocuments\<close> is the generic recursive splitter of the library, which is
  not part of the repository: it is the parameter \<open>lib\<close>, a function of the
  constructor's options and the array of texts.

  The loop \<open>for (const tableMatch of tableMatches)\<close> with its state
  \<open>(chunks, lastIndex)\<close>.
\<close>

fun emitLoop ::
  "(splitter_params \<Rightarrow> string list \<Rightarrow> 'v document list) \<Rightarrow> string \<Rightarrow> table_section list \<Rightarrow>
   'v document list \<Rightarrow> nat \<Rightarrow> 'v document list \<times> nat" where
  "emitLoop lib text [] chunks lastIdx = (chunks, lastIdx)"
| "emitLoop lib text (tableMatch # rest) chunks lastIdx =
     (let chunks1 =
            (if start tableMatch > lastIdx
             then chunks @ lib superParams [slice text lastIdx (start tableMatch)]
             else chunks);
          chunks2 = chunks1 @
            [createTableChunk text (start tableMatch) (end' tableMatch) (header tableMatch)]
      in emitLoop lib text rest chunks2 (end' tableMatch))"

definition splitTextIntoDocuments ::
  "(splitter_params \<Rightarrow> string list \<Rightarrow> 'v document list) \<Rightarrow> splitter \<Rightarrow> string \<Rightarrow>
   ('v document list \<times> splitter) option" where
  "splitTextIntoDocuments lib this text =
     (case findTableSections this text of
        None \<Rightarrow> None
      | Some (tableMatches, this') \<Rightarrow>
          if length tableMatches = 0 then Some (lib superParams [text], this')
          else (case emitLoop lib text tableMatches [] 0 of
                  (chunks, lastIdx) \<Rightarrow>
                    if lastIdx < length text
                    then Some (chunks @ lib superParams [drop lastIdx text], this')
                    else Some (chunks, this')))"

subsection \<open>Auxiliary notions for the statements\<close>

text \<open>The condition of the first loop of \<open>expandTableContext\<close> at a line start
  \<open>p\<close>: the line is not the first one and it looks like a table line.\<close>

definition hangs :: "string \<Rightarrow> nat \<Rightarrow> bool" where
  "hangs t p = (p > 0 \<and> isTableLine (slice t p (findLineEnd t p)))"

text \<open>A lower bound on the length of a match: the nodes that take a character.\<close>

fun minLen :: "node list \<Rightarrow> nat" where
  "minLen [] = 0"
| "minLen (Chr c # ns) = Suc (minLen ns)"
| "minLen (Plus c # ns) = Suc (minLen ns)"
| "minLen (n # ns) = minLen ns"

text \<open>A stand-in for the library in concrete runs: one chunk for every non-empty text,
  with empty metadata.\<close>

definition wholeText :: "splitter_params \<Rightarrow> string list \<Rightarrow> unit document list" where
  "wholeText params texts =
     concat (map (\<lambda>s. if s = [] then [] else [\<lparr>pageContent = s, metadata = []\<rparr>]) texts)"

text \<open>
  Spans of the text, for claim C2: a text span, handed to the library's splitter, or a
  table span with its header. \<open>tiles ss i n\<close> says that the spans \<open>ss\<close> are
  consecutive from offset \<open>i\<close> to offset \<open>n\<close>: the first starts at \<open>i\<close>, each starts
  where the one before it ends, the last ends at \<open>n\<close>. \<open>rendered\<close> is what is emitted
  for a span: the library's chunks of the text of a text span; for a table span one chunk
  whose content is the up to 200 characters before the span, the marker
  \<open>[TABLE: header]\<close>, the text of the span, the marker \<open>[END TABLE]\<close> and the up to
  200 characters after the span, with the line breaks of the source between them.
\<close>

datatype span = TextSpan nat nat | TableSpan nat nat string

fun spanFrom :: "span \<Rightarrow> nat" where
  "spanFrom (TextSpan a b) = a"
| "spanFrom (TableSpan a b h) = a"

fun spanTo :: "span \<Rightarrow> nat" where
  "spanTo (TextSpan a b) = b"
| "spanTo (TableSpan a b h) = b"

definition spanText :: "string \<Rightarrow> span \<Rightarrow> string" where
  "spanText t s = drop (spanFrom s) (take (spanTo s) t)"

fun tiles :: "span list \<Rightarrow> nat \<Rightarrow> nat \<Rightarrow> bool" where
  "tiles [] i n = (i = n)"
| "tiles (s # ss) i n = (spanFrom s = i \<and> spanFrom s \<le> spanTo s \<and> tiles ss (spanTo s) n)"

fun rendered ::
  "(splitter_params \<Rightarrow> string list \<Rightarrow> 'v document list) \<Rightarrow> string \<Rightarrow> span \<Rightarrow> 'v document list" where
  "rendered lib t (TextSpan a b) = lib superParams [drop a (take b t)]"
| "rendered lib t (TableSpan a b h) =
     [\<lparr>pageContent =
         drop (a - 200) (take a t) @ [newline, newline] @ ''[TABLE: '' @ h @ '']'' @ [newline] @
         drop a (take b t) @ [newline] @ ''[END TABLE]'' @ [newline, newline] @
         take 200 (drop b t),
       metadata = [(''type'', Str ''table''), (''header'', Str h),
                   (''table_content'', Str (drop a (take b t)))]\<rparr>]"

text \<open>
  The content of a chunk with the injected markers and the context around them stripped,
  read from the content alone: what stands between the first line \<open>[TABLE: ...]\<close> and
  the \<open>[END TABLE]\<close> line that follows it; the whole content when it holds no such
  markers. \<open>afterFirst p s\<close> is what follows the first occurrence of \<open>p\<close> in \<open>s\<close>,
  \<open>beforeFirst p s\<close> what precedes it.
\<close>

fun afterFirst :: "string \<Rightarrow> string \<Rightarrow> string option" where
  "afterFirst p [] = (if p = [] then Some [] else None)"
| "afterFirst p (x # xs) =
     (if take (length p) (x # xs) = p then Some (drop (length p) (x # xs)) else afterFirst p xs)"

fun beforeFirst :: "string \<Rightarrow> string \<Rightarrow> string option" where
  "beforeFirst p [] = (if p = [] then Some [] else None)"
| "beforeFirst p (x # xs) =
     (if take (length p) (x # xs) = p then Some []
      else map_option ((#) x) (beforeFirst p xs))"

definition stripped :: "'v document \<Rightarrow> string" where
  "stripped d =
     (case afterFirst ''[TABLE: '' (pageContent d) of
        None \<Rightarrow> pageContent d
      | Some r \<Rightarrow>
          (case afterFirst [CHR '']'', newline] r of
             None \<Rightarrow> pageContent d
           | Some body \<Rightarrow>
               (case beforeFirst (newline # ''[END TABLE]'') body of
                  None \<Rightarrow> pageContent d
                | Some s \<Rightarrow> s)))"

text \<open>A second stand-in for the library, which trims as the library's splitter does on a
  text shorter than the chunk size: one chunk with the text trimmed, none when nothing is
  left. \<open>loc\<close> stands for the line numbers the library stores.\<close>

definition trimmedText :: "splitter_params \<Rightarrow> string list \<Rightarrow> unit document list" where
  "trimmedText params texts =
     concat (map (\<lambda>s. if trim s = [] then []
                       else [\<lparr>pageContent = trim s, metadata = [(''loc'', Other ())]\<rparr>]) texts)"

text \<open>Texts for concrete runs: two captions more than 50 characters apart; two captions
  on one line; a caption followed by a three-row table between two paragraphs; two table
  rows; one table row; a blank before a caption.\<close>

definition twoExhibits :: string where
  "twoExhibits = ''Exhibit 1 lists the fees; the rates that apply to each term are given in Exhibit 2.''"

definition captionAndSchedule :: string where
  "captionAndSchedule = ''Table 1.1 and Schedule A''"

definition rateTable :: string where
  "rateTable = ''Intro paragraph.\<newline>\<newline>Table 2.1\<newline>| Rate | Term |\<newline>|------|------|\<newline>| 3.5% | 30yr |\<newline>\<newline>Closing paragraph.''"

definition twoRows :: string where
  "twoRows = ''|a|\<newline>|b|''"

definition oneRow :: string where
  "oneRow = ''|Rate|Term|\<newline>''"

definition leadingBlank :: string where
  "leadingBlank = '' Exhibit 7''"

section \<open>Properties\<close>

subsection \<open>Lines\<close>

lemma lastIndexOf_at: "p < length t \<Longrightarrow> t ! p = c \<Longrightarrow> lastIndexOf t c p = Some p"
  by (cases p) simp_all

lemma lastIndexOf_Some: "lastIndexOf t c i = Some j \<Longrightarrow> j < length t \<and> t ! j = c \<and> j \<le> i"
  by (induction i) (auto split: if_splits)

lemma indexFrom_Some:
  "indexFrom xs c i = Some j \<Longrightarrow> i \<le> j \<and> j - i < length xs \<and> xs ! (j - i) = c"
proof (induction xs arbitrary: i)
  case Nil
  then show ?case by simp
next
  case (Cons x xs)
  show ?case
  proof (cases "x = c")
    case True
    with Cons.prems show ?thesis by simp
  next
    case False
    with Cons.prems have "indexFrom xs c (Suc i) = Some j" by simp
    from Cons.IH [OF this] show ?thesis
      by (auto simp: Suc_diff_le nth_Cons')
  qed
qed

lemma indexOf_Some: "indexOf t c i = Some j \<Longrightarrow> i \<le> j \<and> j < length t \<and> t ! j = c"
  unfolding indexOf_def
  by (drule indexFrom_Some) auto

lemma findLineStart_cases:
  "findLineStart t i = 0 \<or> (\<exists>k. findLineStart t i = Suc k \<and> k < length t \<and> t ! k = newline)"
  unfolding findLineStart_def
  by (auto split: option.splits dest: lastIndexOf_Some)

lemma findLineStart_at_newline:
  "k < length t \<Longrightarrow> t ! k = newline \<Longrightarrow> findLineStart t k = Suc k"
  by (simp add: findLineStart_def lastIndexOf_at)

lemma findLineEnd_cases:
  "length t \<le> findLineEnd t i \<or> t ! findLineEnd t i = newline"
  unfolding findLineEnd_def
  by (auto split: option.splits dest: indexOf_Some)

lemma isTableLine_Nil: "\<not> isTableLine []"
  by (simp add: isTableLine_def test_def trim_def separatorLine_def tableRow_def)

lemma expandForward_lineEnd: "expandForward t e (findLineEnd t i) = Some e"
proof (cases "findLineEnd t i < length t")
  case False
  then show ?thesis by (subst expandForward.simps) simp
next
  case True
  with findLineEnd_cases [of t i] have "t ! findLineEnd t i = newline" by auto
  with True have "findLineStart t (findLineEnd t i) = Suc (findLineEnd t i)"
    by (rule findLineStart_at_newline)
  then have "slice t (findLineStart t (findLineEnd t i)) (findLineEnd t i) = []"
    by (simp add: slice_def)
  then show ?thesis
    by (subst expandForward.simps) (simp add: isTableLine_Nil)
qed


lemma expandBackward_Some:
  assumes "expandBackward t s p = Some y"
  shows "\<not> (hangs t p \<and> p - 1 < length t \<and> t ! (p - 1) = newline)"
proof (rule expandBackward.raw_induct
    [where P = "\<lambda>t s p y. \<not> (hangs t p \<and> p - 1 < length t \<and> t ! (p - 1) = newline)", OF _ assms])
  fix f t s p y
  assume IH: "\<And>t s p y. f t s p = Some y \<Longrightarrow>
      \<not> (hangs t p \<and> p - 1 < length t \<and> t ! (p - 1) = newline)"
    and step: "(if 0 < p \<and> isTableLine (slice t p (findLineEnd t p))
         then f t p (findLineStart t (p - 1)) else Some s) = Some y"
  show "\<not> (hangs t p \<and> p - 1 < length t \<and> t ! (p - 1) = newline)"
  proof
    assume h: "hangs t p \<and> p - 1 < length t \<and> t ! (p - 1) = newline"
    then have "findLineStart t (p - 1) = p"
      by (simp add: findLineStart_at_newline hangs_def)
    with h step have "f t p p = Some y"
      by (simp add: hangs_def)
    from IH [OF this] h show False by simp
  qed
qed

lemma expandBackward_lineStart:
  "expandBackward t i (findLineStart t i) = (if hangs t (findLineStart t i) then None else Some i)"
proof (cases "hangs t (findLineStart t i)")
  case False
  then have "\<not> (0 < findLineStart t i \<and>
      isTableLine (slice t (findLineStart t i) (findLineEnd t (findLineStart t i))))"
    by (simp add: hangs_def)
  then have "expandBackward t i (findLineStart t i) = Some i"
    by (subst expandBackward.simps) auto
  with False show ?thesis by simp
next
  case True
  then have "findLineStart t i > 0" by (simp add: hangs_def)
  with findLineStart_cases [of t i] obtain k where
    "findLineStart t i = Suc k" "k < length t" "t ! k = newline" by auto
  with True expandBackward_Some [of t i "findLineStart t i"]
  have "expandBackward t i (findLineStart t i) = None"
    by (cases "expandBackward t i (findLineStart t i)") auto
  with True show ?thesis by simp
qed

lemma expandTableContext_eq:
  "expandTableContext t i = (if hangs t (findLineStart t i) then None else Some (i, i))"
  by (simp add: expandTableContext_def expandBackward_lineStart expandForward_lineEnd)

subsection \<open>Detection leaves the patterns as it found them\<close>

lemma exec_lastIndex: "exec re t = (r, re') \<Longrightarrow> re'\<lparr>lastIndex := 0\<rparr> = re\<lparr>lastIndex := 0\<rparr>"
  by (auto simp: exec_def split: if_splits option.splits)

lemma exec_None: "exec re t = (None, re') \<Longrightarrow> re' = re\<lparr>lastIndex := 0\<rparr>"
  by (auto simp: exec_def split: if_splits option.splits)

lemma matchLoop_Some_aux:
  assumes "matchLoop t re secs = Some y"
  shows "snd y = re\<lparr>lastIndex := 0\<rparr> \<and>
         (\<exists>new. fst y = secs @ new \<and> list_all (\<lambda>s. start s = end' s) new)"
proof (rule matchLoop.raw_induct
    [where P = "\<lambda>t re secs y. snd y = re\<lparr>lastIndex := 0\<rparr> \<and>
         (\<exists>new. fst y = secs @ new \<and> list_all (\<lambda>s. start s = end' s) new)", OF _ assms])
  fix f t re secs y
  assume IH: "\<And>t re secs y. f t re secs = Some y \<Longrightarrow>
          snd y = re\<lparr>lastIndex := 0\<rparr> \<and>
          (\<exists>new. fst y = secs @ new \<and> list_all (\<lambda>s. start s = end' s) new)"
    and step: "(case exec re t of
        (None, pattern') \<Rightarrow> Some (secs, pattern')
      | (Some (index, matched), pattern') \<Rightarrow>
          (case expandTableContext t index of
             None \<Rightarrow> None
           | Some (s, e) \<Rightarrow>
               f t pattern' (secs @ [\<lparr>start = s, end' = e, header = matched\<rparr>]))) = Some y"
  show "snd y = re\<lparr>lastIndex := 0\<rparr> \<and>
        (\<exists>new. fst y = secs @ new \<and> list_all (\<lambda>s. start s = end' s) new)"
  proof (cases "exec re t")
    case (Pair r re1)
    show ?thesis
    proof (cases r)
      case None
      with Pair step exec_None [of re t re1] show ?thesis by auto
    next
      case (Some im)
      obtain i m where im: "im = (i, m)" by (cases im)
      from Pair Some im step obtain s e where
        ex: "expandTableContext t i = Some (s, e)" and
        rec: "f t re1 (secs @ [\<lparr>start = s, end' = e, header = m\<rparr>]) = Some y"
        by (auto split: option.splits)
      from ex have se: "s = i \<and> e = i"
        by (simp add: expandTableContext_eq split: if_splits)
      from IH [OF rec] exec_lastIndex [OF Pair] se show ?thesis
        by auto
    qed
  qed
qed

lemma matchLoop_Some:
  "matchLoop t re secs = Some (secs', re') \<Longrightarrow>
     re' = re\<lparr>lastIndex := 0\<rparr> \<and>
     (\<exists>new. secs' = secs @ new \<and> list_all (\<lambda>s. start s = end' s) new)"
  by (drule matchLoop_Some_aux) simp

lemma patternLoop_Some:
  "patternLoop t ps secs = Some (secs', ps') \<Longrightarrow>
     ps' = map (\<lambda>re. re\<lparr>lastIndex := 0\<rparr>) ps \<and>
     (\<exists>new. secs' = secs @ new \<and> list_all (\<lambda>s. start s = end' s) new)"
proof (induction ps arbitrary: secs secs' ps')
  case Nil
  then show ?case by simp
next
  case (Cons p ps)
  from Cons.prems obtain s1 p1 s2 ps2 where
    m: "matchLoop t p secs = Some (s1, p1)" and
    r: "patternLoop t ps s1 = Some (s2, ps2)" and
    eq: "secs' = s2" "ps' = p1 # ps2"
    by (auto split: option.splits)
  from matchLoop_Some [OF m] Cons.IH [OF r] eq show ?case
    by auto
qed

subsection \<open>Texts without a match\<close>

lemma matchLoop_no_match:
  assumes "fst (exec re t) = None" "lastIndex re = 0"
  shows "matchLoop t re secs = Some (secs, re)"
proof -
  obtain re' where e: "exec re t = (None, re')"
    using assms(1) by (cases "exec re t") auto
  from exec_None [OF e] assms(2) have "re' = re" by simp
  with e show ?thesis by (subst matchLoop.simps) simp
qed

lemma patternLoop_no_match:
  "list_all (\<lambda>re. fst (exec re t) = None \<and> lastIndex re = 0) ps \<Longrightarrow>
     patternLoop t ps secs = Some (secs, ps)"
  by (induction ps arbitrary: secs) (simp_all add: matchLoop_no_match)

lemma newSplitter_lastIndex: "list_all (\<lambda>re. lastIndex re = 0) (tablePatterns newSplitter)"
  by (simp add: newSplitter_def)

lemma split_no_match:
  assumes "list_all (\<lambda>re. fst (exec re t) = None) (tablePatterns newSplitter)"
  shows "splitTextIntoDocuments lib newSplitter t = Some (lib superParams [t], newSplitter)"
proof -
  from assms newSplitter_lastIndex
  have "list_all (\<lambda>re. fst (exec re t) = None \<and> lastIndex re = 0) (tablePatterns newSplitter)"
    by (simp add: list_all_iff)
  then have "patternLoop t (tablePatterns newSplitter) [] = Some ([], tablePatterns newSplitter)"
    by (rule patternLoop_no_match)
  then show ?thesis
    by (simp add: splitTextIntoDocuments_def findTableSections_def mergeOverlappingSections_def)
qed

lemma no_match_prose:
  "list_all (\<lambda>re. fst (exec re ''Rates may change.'') = None) (tablePatterns newSplitter)"
  by code_simp

lemma no_match_empty: "list_all (\<lambda>re. fst (exec re []) = None) (tablePatterns newSplitter)"
  by code_simp

text \<open>
  Claim C4 (no-table fallback). When the first \<open>exec\<close> of every table pattern on the
  text returns null, that is, when the patterns produce no match at all,
  \<open>splitTextIntoDocuments\<close> returns exactly what the generic recursive splitter of the
  library returns for the whole text under the constructor's options (chunk size 1000,
  overlap 200), and the instance is left as it was.
\<close>

theorem no_table_fallback:
  assumes "list_all (\<lambda>re. fst (exec re t) = None) (tablePatterns newSplitter)"
  shows "splitTextIntoDocuments lib newSplitter t = Some (lib superParams [t], newSplitter) \<and>
         chunkSize superParams = 1000 \<and> chunkOverlap superParams = 200"
  using split_no_match [OF assms] by (simp add: superParams_def)

theorem no_table_fallback_witness:
  "list_all (\<lambda>re. fst (exec re ''Rates may change.'') = None) (tablePatterns newSplitter) \<and>
   splitTextIntoDocuments wholeText newSplitter ''Rates may change.'' =
     Some ([\<lparr>pageContent = ''Rates may change.'', metadata = []\<rparr>], newSplitter)"
  using no_table_fallback [OF no_match_prose, of wholeText]
  by (simp add: no_match_prose wholeText_def)

text \<open>
  Claim C9 (empty input). On the empty text no pattern matches, so the result is what the
  library's splitter returns for the empty text; whenever that is the empty sequence,
  whatever the options it is run with, the chunker returns the empty sequence.
\<close>

theorem empty_input:
  assumes "lib superParams [[]] = []"
  shows "splitTextIntoDocuments lib newSplitter [] = Some ([], newSplitter)"
  using split_no_match [OF no_match_empty, of lib] assms by simp

theorem empty_input_witness:
  "wholeText superParams [[]] = [] \<and>
   splitTextIntoDocuments wholeText newSplitter [] = Some ([], newSplitter)"
proof -
  have h: "wholeText superParams [[]] = []" by (simp add: wholeText_def)
  from empty_input [of wholeText, OF h] h show ?thesis by simp
qed

subsection \<open>Merged regions\<close>

lemma mergeLoop_prefix: "mergeLoop (pre @ [l]) rest = pre @ mergeLoop [l] rest"
proof (induction rest arbitrary: pre l)
  case Nil
  then show ?case by simp
next
  case (Cons c rest)
  show ?case
  proof (cases "start c \<le> end' l + 50")
    case True
    then show ?thesis using Cons.IH [of pre] Cons.IH [of "[]"] by simp
  next
    case False
    have "mergeLoop ((pre @ [l]) @ [c]) rest = (pre @ [l]) @ mergeLoop [c] rest"
      by (rule Cons.IH)
    moreover have "mergeLoop ([l] @ [c]) rest = [l] @ mergeLoop [c] rest"
      by (rule Cons.IH)
    ultimately show ?thesis using False by simp
  qed
qed

lemma mergeLoop_single:
  "mergeLoop [l] (c # rest) =
     (if start c \<le> end' l + 50
      then mergeLoop [l\<lparr>end' := max (end' l) (end' c), header := header l @ '', '' @ header c\<rparr>] rest
      else l # mergeLoop [c] rest)"
  using mergeLoop_prefix [of "[l]" c rest] by simp

lemma mergeLoop_invariant:
  "list_all (\<lambda>a. start a \<le> end' a) (l # rest) \<Longrightarrow>
     list_all (\<lambda>a. start a \<le> end' a) (mergeLoop [l] rest) \<and>
     sorted_wrt (\<lambda>a b. end' a + 50 < start b) (mergeLoop [l] rest) \<and>
     (\<forall>b \<in> set (mergeLoop [l] rest). start l \<le> start b)"
proof (induction rest arbitrary: l)
  case Nil
  then show ?case by simp
next
  case (Cons c rest)
  show ?case
  proof (cases "start c \<le> end' l + 50")
    case True
    let ?l = "l\<lparr>end' := max (end' l) (end' c), header := header l @ '', '' @ header c\<rparr>"
    from Cons.prems have "list_all (\<lambda>a. start a \<le> end' a) (?l # rest)" by auto
    from Cons.IH [OF this] True show ?thesis
      by (simp add: mergeLoop_single)
  next
    case False
    from Cons.prems have "list_all (\<lambda>a. start a \<le> end' a) (c # rest)" by simp
    from Cons.IH [OF this] have
      v: "list_all (\<lambda>a. start a \<le> end' a) (mergeLoop [c] rest)" and
      s: "sorted_wrt (\<lambda>a b. end' a + 50 < start b) (mergeLoop [c] rest)" and
      b: "\<And>b. b \<in> set (mergeLoop [c] rest) \<Longrightarrow> start c \<le> start b"
      by auto
    from Cons.prems have l: "start l \<le> end' l" by simp
    have "\<And>b. b \<in> set (mergeLoop [c] rest) \<Longrightarrow> end' l + 50 < start b \<and> start l \<le> start b"
    proof -
      fix b assume "b \<in> set (mergeLoop [c] rest)"
      from b [OF this] False l show "end' l + 50 < start b \<and> start l \<le> start b" by simp
    qed
    moreover from False have "mergeLoop [l] (c # rest) = l # mergeLoop [c] rest"
      by (subst mergeLoop_single) simp
    ultimately show ?thesis using v s l
      by (simp del: mergeLoop.simps)
  qed
qed

lemma merge_invariant:
  assumes "list_all (\<lambda>a. start a \<le> end' a) secs"
  shows "list_all (\<lambda>a. start a \<le> end' a) (mergeOverlappingSections secs) \<and>
         sorted_wrt (\<lambda>a b. end' a + 50 < start b) (mergeOverlappingSections secs)"
proof (cases "sort_key start secs")
  case Nil
  then show ?thesis by (simp add: mergeOverlappingSections_def)
next
  case (Cons l rest)
  have "set (sort_key start secs) = set secs" by simp
  with assms have "list_all (\<lambda>a. start a \<le> end' a) (sort_key start secs)"
    unfolding list_all_iff by blast
  with Cons have "list_all (\<lambda>a. start a \<le> end' a) (l # rest)" by simp
  from mergeLoop_invariant [OF this] Cons show ?thesis
    by (simp add: mergeOverlappingSections_def)
qed

lemma findTableSections_Some:
  assumes "findTableSections this t = Some (regions, this')"
  shows "list_all (\<lambda>a. start a \<le> end' a) regions \<and>
         sorted_wrt (\<lambda>a b. end' a + 50 < start b) regions \<and>
         tablePatterns this' = map (\<lambda>re. re\<lparr>lastIndex := 0\<rparr>) (tablePatterns this)"
proof -
  from assms obtain secs ps where
    p: "patternLoop t (tablePatterns this) [] = Some (secs, ps)" and
    r: "regions = mergeOverlappingSections secs" and
    t: "this' = this\<lparr>tablePatterns := ps\<rparr>"
    by (auto simp: findTableSections_def split: option.splits)
  from patternLoop_Some [OF p] have
    ps: "ps = map (\<lambda>re. re\<lparr>lastIndex := 0\<rparr>) (tablePatterns this)" and
    z: "list_all (\<lambda>s. start s = end' s) secs"
    by auto
  from z have "list_all (\<lambda>a. start a \<le> end' a) secs"
    by (simp add: list_all_iff)
  from merge_invariant [OF this] r ps t show ?thesis by simp
qed

lemma separated_sorted:
  assumes "list_all (\<lambda>a. start a \<le> end' a) rs" "sorted_wrt (\<lambda>a b. end' a + 50 < start b) rs"
  shows "sorted (map start rs) \<and>
         sorted_wrt (\<lambda>a b. {start a..end' a} \<inter> {start b..end' b} = {}) rs"
proof -
  have "sorted_wrt (\<lambda>a b. start a \<le> start b \<and> {start a..end' a} \<inter> {start b..end' b} = {}) rs"
  proof (rule sorted_wrt_mono_rel [OF _ assms(2)])
    fix a b
    assume "a \<in> set rs" "b \<in> set rs" "end' a + 50 < start b"
    with assms(1) show "start a \<le> start b \<and> {start a..end' a} \<inter> {start b..end' b} = {}"
      by (auto simp: list_all_iff)
  qed
  then show ?thesis
    by (simp add: sorted_map sorted_wrt_iff_nth_less)
qed

lemma find_twoExhibits:
  "findTableSections newSplitter twoExhibits =
     Some ([\<lparr>start = 0, end' = 0, header = ''Exhibit 1''\<rparr>,
            \<lparr>start = 73, end' = 73, header = ''Exhibit 2''\<rparr>], newSplitter)"
  by code_simp

text \<open>
  Claim C6 (post-merge invariant). Whenever \<open>findTableSections\<close> returns, the
  regions it returns are sorted by \<open>start\<close>, and any two of them are disjoint, even as
  closed intervals from \<open>start\<close> to \<open>end\<close>.
\<close>

theorem regions_sorted_disjoint:
  assumes "findTableSections this t = Some (regions, this')"
  shows "sorted (map start regions) \<and>
         sorted_wrt (\<lambda>a b. {start a..end' a} \<inter> {start b..end' b} = {}) regions"
  using findTableSections_Some [OF assms] separated_sorted by blast

theorem regions_sorted_disjoint_witness:
  "findTableSections newSplitter twoExhibits =
     Some ([\<lparr>start = 0, end' = 0, header = ''Exhibit 1''\<rparr>,
            \<lparr>start = 73, end' = 73, header = ''Exhibit 2''\<rparr>], newSplitter) \<and>
   sorted (map start [\<lparr>start = 0, end' = 0, header = ''Exhibit 1''\<rparr>,
                      \<lparr>start = 73, end' = 73, header = ''Exhibit 2''\<rparr>]) \<and>
   sorted_wrt (\<lambda>a b. {start a..end' a} \<inter> {start b..end' b} = {})
     [\<lparr>start = 0, end' = 0, header = ''Exhibit 1''\<rparr>,
      \<lparr>start = 73, end' = 73, header = ''Exhibit 2''\<rparr>]"
  using regions_sorted_disjoint [OF find_twoExhibits] find_twoExhibits by simp

subsection \<open>Emission\<close>

lemma slice_drop_take: "slice t a b = drop a (take b t)"
  by (simp add: slice_def drop_take)

lemma emitLoop_tables:
  "set chunks \<union> (\<lambda>r. createTableChunk t (start r) (end' r) (header r)) ` set rs
     \<subseteq> set (fst (emitLoop lib t rs chunks li))"
proof (induction rs arbitrary: chunks li)
  case Nil
  then show ?case by simp
next
  case (Cons r rs)
  let ?c1 = "if start r > li then chunks @ lib superParams [slice t li (start r)] else chunks"
  let ?c2 = "?c1 @ [createTableChunk t (start r) (end' r) (header r)]"
  have "set chunks \<union> {createTableChunk t (start r) (end' r) (header r)} \<subseteq> set ?c2"
    by auto
  with Cons.IH [of ?c2 "end' r"] show ?case
    by (auto simp: Let_def)
qed

lemma split_tables:
  assumes "findTableSections this t = Some (regions, this1)"
    and "r \<in> set regions"
    and "splitTextIntoDocuments lib this t = Some (chunks, this2)"
  shows "createTableChunk t (start r) (end' r) (header r) \<in> set chunks"
proof -
  from assms(2) have ne: "regions \<noteq> []" by auto
  obtain cs li where e: "emitLoop lib t regions [] 0 = (cs, li)"
    by (cases "emitLoop lib t regions [] 0")
  from emitLoop_tables [of "[]" t regions lib 0] e assms(2)
  have "createTableChunk t (start r) (end' r) (header r) \<in> set cs" by auto
  moreover from assms(1,3) ne e have "chunks = cs @ lib superParams [drop li t] \<or> chunks = cs"
    by (auto simp: splitTextIntoDocuments_def split: if_splits)
  ultimately show ?thesis by auto
qed

lemma createTableChunk_format:
  "pageContent (createTableChunk t a b h :: 'v document) =
     drop (a - 200) (take a t) @ [newline, newline] @ ''[TABLE: '' @ h @ '']'' @ [newline] @
     drop a (take b t) @ [newline] @ ''[END TABLE]'' @ [newline, newline] @
     take 200 (drop b t) \<and>
   metadata (createTableChunk t a b h :: 'v document) =
     [(''type'', Str ''table''), (''header'', Str h),
      (''table_content'', Str (drop a (take b t)))]"
proof -
  have before: "nat (max 0 (int a - 200)) = a - 200"
    by arith
  have after: "drop b (take (min (length t) (b + 200)) t) = take 200 (drop b t)"
    by (cases "b \<le> length t") (simp_all add: drop_take min_def)
  show ?thesis
    unfolding createTableChunk_def Let_def slice_drop_take before after by simp
qed

lemma split_twoExhibits:
  "splitTextIntoDocuments wholeText newSplitter twoExhibits =
     Some ([createTableChunk twoExhibits 0 0 ''Exhibit 1'',
            \<lparr>pageContent = take 73 twoExhibits, metadata = []\<rparr>,
            createTableChunk twoExhibits 73 73 ''Exhibit 2'',
            \<lparr>pageContent = ''Exhibit 2.'', metadata = []\<rparr>], newSplitter)"
  by code_simp

text \<open>
  Claim C7 (table chunk format). For every region \<open>r\<close> that \<open>findTableSections\<close>
  returns, the chunks that \<open>splitTextIntoDocuments\<close> returns contain a chunk whose
  content is: the up to 200 characters of the text before \<open>start r\<close>, two line breaks,
  \<open>[TABLE: header]\<close>, a line break, the text of the region, a line break,
  \<open>[END TABLE]\<close>, two line breaks, the up to 200 characters of the text after
  \<open>end r\<close>; its metadata holds the type \<open>table\<close>, the header and the text of the
  region as \<open>table_content\<close>.
\<close>

theorem table_chunk_format:
  assumes "findTableSections this t = Some (regions, this1)"
    and "r \<in> set regions"
    and "splitTextIntoDocuments lib this t = Some (chunks, this2)"
  shows "\<exists>d \<in> set chunks.
     pageContent d =
       drop (start r - 200) (take (start r) t) @ [newline, newline] @
       ''[TABLE: '' @ header r @ '']'' @ [newline] @
       drop (start r) (take (end' r) t) @ [newline] @ ''[END TABLE]'' @ [newline, newline] @
       take 200 (drop (end' r) t) \<and>
     metadata d =
       [(''type'', Str ''table''), (''header'', Str (header r)),
        (''table_content'', Str (drop (start r) (take (end' r) t)))]"
  using split_tables [OF assms] createTableChunk_format [of t "start r" "end' r" "header r"]
  by blast

theorem table_chunk_format_witness:
  "findTableSections newSplitter twoExhibits =
     Some ([\<lparr>start = 0, end' = 0, header = ''Exhibit 1''\<rparr>,
            \<lparr>start = 73, end' = 73, header = ''Exhibit 2''\<rparr>], newSplitter) \<and>
   splitTextIntoDocuments wholeText newSplitter twoExhibits =
     Some ([createTableChunk twoExhibits 0 0 ''Exhibit 1'',
            \<lparr>pageContent = take 73 twoExhibits, metadata = []\<rparr>,
            createTableChunk twoExhibits 73 73 ''Exhibit 2'',
            \<lparr>pageContent = ''Exhibit 2.'', metadata = []\<rparr>], newSplitter) \<and>
   (\<exists>d \<in> set ([createTableChunk twoExhibits 0 0 ''Exhibit 1'',
            \<lparr>pageContent = take 73 twoExhibits, metadata = []\<rparr>,
            createTableChunk twoExhibits 73 73 ''Exhibit 2'',
            \<lparr>pageContent = ''Exhibit 2.'', metadata = []\<rparr>] :: unit document list).
      pageContent d =
        ''Exhibit 1 lists the fees; the rates that apply to each term are given in '' @
        [newline, newline] @ ''[TABLE: Exhibit 2]'' @ [newline, newline] @ ''[END TABLE]'' @
        [newline, newline] @ ''Exhibit 2.'' \<and>
      metadata d =
        [(''type'', Str ''table''), (''header'', Str ''Exhibit 2''),
         (''table_content'', Str [])])"
proof -
  have r: "\<lparr>start = 73, end' = 73, header = ''Exhibit 2''\<rparr> \<in>
      set [\<lparr>start = 0, end' = 0, header = ''Exhibit 1''\<rparr>,
           \<lparr>start = 73, end' = 73, header = ''Exhibit 2''\<rparr>]"
    by simp
  from table_chunk_format [OF find_twoExhibits r split_twoExhibits]
    find_twoExhibits split_twoExhibits
  show ?thesis by (simp add: twoExhibits_def createTableChunk_def Let_def slice_def)
qed

subsection \<open>State across calls\<close>

lemma split_state:
  assumes "splitTextIntoDocuments lib this t = Some (chunks, this')"
  shows "this' = this\<lparr>tablePatterns := map (\<lambda>re. re\<lparr>lastIndex := 0\<rparr>) (tablePatterns this)\<rparr>"
proof -
  from assms obtain regions this1 where
    f: "findTableSections this t = Some (regions, this1)" and t: "this' = this1"
    by (auto simp: splitTextIntoDocuments_def split: option.splits if_splits prod.splits)
  from f obtain ps where "this1 = this\<lparr>tablePatterns := ps\<rparr>"
    by (auto simp: findTableSections_def split: option.splits)
  with findTableSections_Some [OF f] t show ?thesis by simp
qed

lemma lastIndex_reset_id:
  "list_all (\<lambda>re. lastIndex re = 0) ps \<Longrightarrow> map (\<lambda>re. re\<lparr>lastIndex := 0\<rparr>) ps = ps"
  by (induction ps) simp_all

text \<open>
  Claim C10 (determinism). The only state of an instance is the \<open>lastIndex\<close> of its
  five global expressions, all 0 after construction. A call that returns leaves every
  \<open>lastIndex\<close> at 0 again, so the instance is what it was, and a second call with the
  same text returns the same chunks. (The library's splitter is a function in the model.)
\<close>

theorem split_deterministic:
  assumes "list_all (\<lambda>re. lastIndex re = 0) (tablePatterns this)"
    and "splitTextIntoDocuments lib this t = Some (chunks, this')"
  shows "this' = this \<and> splitTextIntoDocuments lib this' t = Some (chunks, this')"
proof -
  from split_state [OF assms(2)] lastIndex_reset_id [OF assms(1)] have "this' = this"
    by simp
  with assms(2) show ?thesis by simp
qed

theorem split_deterministic_witness:
  "list_all (\<lambda>re. lastIndex re = 0) (tablePatterns newSplitter) \<and>
   splitTextIntoDocuments wholeText newSplitter twoExhibits =
     Some ([createTableChunk twoExhibits 0 0 ''Exhibit 1'',
            \<lparr>pageContent = take 73 twoExhibits, metadata = []\<rparr>,
            createTableChunk twoExhibits 73 73 ''Exhibit 2'',
            \<lparr>pageContent = ''Exhibit 2.'', metadata = []\<rparr>], newSplitter)"
  using split_deterministic [OF newSplitter_lastIndex split_twoExhibits]
    newSplitter_lastIndex split_twoExhibits
  by simp

subsection \<open>Merge tolerance\<close>

lemma mergeLoop_append: "mergeLoop m (r1 @ r2) = mergeLoop (mergeLoop m r1) r2"
  by (induction r1 arbitrary: m) simp_all

lemma mergeLoop_not_Nil: "mergeLoop [l] rest \<noteq> []"
  by (induction rest arbitrary: l) (simp_all add: mergeLoop_single del: mergeLoop.simps(2))

lemma mergeLoop_last_end:
  "sorted (map end' (l # rest)) \<Longrightarrow>
     end' (last (mergeLoop [l] rest)) = end' (last (l # rest))"
proof (induction rest arbitrary: l)
  case Nil
  then show ?case by simp
next
  case (Cons c rest)
  let ?l = "l\<lparr>end' := max (end' l) (end' c), header := header l @ '', '' @ header c\<rparr>"
  from Cons.prems have le: "end' l \<le> end' c" and sc: "sorted (map end' (c # rest))"
    by simp_all
  show ?case
  proof (cases "start c \<le> end' l + 50")
    case True
    from le sc have "sorted (map end' (?l # rest))" by (simp add: max_absorb2)
    from Cons.IH [OF this] True le show ?thesis
      by (cases rest) (simp_all add: mergeLoop_single max_absorb2 del: mergeLoop.simps(2))
  next
    case False
    with Cons.IH [OF sc] show ?thesis
      by (simp add: mergeLoop_single mergeLoop_not_Nil del: mergeLoop.simps(2))
  qed
qed

lemma mergeLoop_same_end:
  "end' l1 = end' l2 \<Longrightarrow>
     \<exists>e h R. mergeLoop [l2] ys = l2\<lparr>end' := e, header := header l2 @ h\<rparr> # R \<and>
             mergeLoop [l1] ys = l1\<lparr>end' := e, header := header l1 @ h\<rparr> # R"
proof (induction ys arbitrary: l1 l2)
  case Nil
  have "mergeLoop [l2] [] = l2\<lparr>end' := end' l2, header := header l2 @ []\<rparr> # []"
    by simp
  moreover from Nil have "mergeLoop [l1] [] = l1\<lparr>end' := end' l2, header := header l1 @ []\<rparr> # []"
    by simp
  ultimately show ?case by blast
next
  case (Cons c ys)
  show ?case
  proof (cases "start c \<le> end' l2 + 50")
    case True
    let ?l1 = "l1\<lparr>end' := max (end' l1) (end' c), header := header l1 @ '', '' @ header c\<rparr>"
    let ?l2 = "l2\<lparr>end' := max (end' l2) (end' c), header := header l2 @ '', '' @ header c\<rparr>"
    from Cons.prems have "end' ?l1 = end' ?l2" by simp
    from Cons.IH [OF this] obtain e h R where
      "mergeLoop [?l2] ys = ?l2\<lparr>end' := e, header := header ?l2 @ h\<rparr> # R"
      "mergeLoop [?l1] ys = ?l1\<lparr>end' := e, header := header ?l1 @ h\<rparr> # R"
      by blast
    with True Cons.prems have
      "mergeLoop [l2] (c # ys) = l2\<lparr>end' := e, header := header l2 @ ('', '' @ header c @ h)\<rparr> # R"
      "mergeLoop [l1] (c # ys) = l1\<lparr>end' := e, header := header l1 @ ('', '' @ header c @ h)\<rparr> # R"
      by (simp_all add: mergeLoop_single del: mergeLoop.simps(2))
    then show ?thesis by blast
  next
    case False
    with Cons.prems have
      "mergeLoop [l2] (c # ys) = l2\<lparr>end' := end' l2, header := header l2 @ []\<rparr> # mergeLoop [c] ys"
      "mergeLoop [l1] (c # ys) = l1\<lparr>end' := end' l2, header := header l1 @ []\<rparr> # mergeLoop [c] ys"
      by (simp_all add: mergeLoop_single del: mergeLoop.simps(2))
    then show ?thesis by blast
  qed
qed

lemma merge_sorted:
  "sorted (map start zs) \<Longrightarrow>
     mergeOverlappingSections zs = (case zs of [] \<Rightarrow> [] | f # r \<Rightarrow> mergeLoop [f] r)"
  by (simp add: mergeOverlappingSections_def sort_key_id_if_sorted)

lemma merge_adjacent:
  assumes ss: "sorted (map start (xs @ a # b # ys))"
    and se: "sorted (map end' (xs @ a # b # ys))"
  shows "mergeOverlappingSections (xs @ a # b # ys) =
     (if start b \<le> end' a + 50
      then butlast (mergeOverlappingSections (xs @ [a])) @
           [\<lparr>start = start (last (mergeOverlappingSections (xs @ [a]))),
             end' = end' (hd (mergeOverlappingSections (b # ys))),
             header = header (last (mergeOverlappingSections (xs @ [a]))) @ '', '' @
                      header (hd (mergeOverlappingSections (b # ys)))\<rparr>] @
           tl (mergeOverlappingSections (b # ys))
      else mergeOverlappingSections (xs @ [a]) @ mergeOverlappingSections (b # ys))"
proof -
  obtain f r where fr: "xs @ [a] = f # r" by (cases xs) auto
  have "xs @ a # b # ys = (xs @ [a]) @ b # ys" by simp
  then have whole: "xs @ a # b # ys = f # (r @ b # ys)" by (simp only: fr append_Cons)
  from ss have s1: "sorted (map start (xs @ [a]))" and s2: "sorted (map start (b # ys))"
    by (simp_all add: sorted_append)
  from se have e1: "sorted (map end' (xs @ [a]))" and ab: "end' a \<le> end' b"
    by (simp_all add: sorted_append)
  define A where "A = mergeLoop [f] r"
  define B where "B = mergeLoop [b] ys"
  have mA: "mergeOverlappingSections (xs @ [a]) = A"
    using merge_sorted [OF s1] fr by (simp add: A_def)
  have mB: "mergeOverlappingSections (b # ys) = B"
    using merge_sorted [OF s2] by (simp add: B_def)
  from ss whole have "sorted (map start (f # (r @ b # ys)))" by simp
  from merge_sorted [OF this]
  have "mergeOverlappingSections (f # (r @ b # ys)) = mergeLoop A (b # ys)"
    by (simp add: A_def mergeLoop_append del: mergeLoop.simps(2))
  then have mS: "mergeOverlappingSections (xs @ a # b # ys) = mergeLoop A (b # ys)"
    by (simp only: whole)
  have Ane: "A \<noteq> []" by (simp add: A_def mergeLoop_not_Nil)
  then have Asplit: "A = butlast A @ [last A]" by simp
  have "last (f # r) = last (xs @ [a])" by (simp only: fr)
  then have lastfr: "last (f # r) = a" by simp
  from e1 have "sorted (map end' (f # r))" by (simp only: fr)
  from mergeLoop_last_end [OF this] lastfr have endA: "end' (last A) = end' a"
    by (simp only: A_def)
  have step: "mergeLoop A (b # ys) = butlast A @ mergeLoop [last A] (b # ys)"
    using mergeLoop_prefix [of "butlast A" "last A" "b # ys"] Asplit by simp
  show ?thesis
  proof (cases "start b \<le> end' a + 50")
    case False
    with endA have "mergeLoop [last A] (b # ys) = last A # B"
      by (simp add: mergeLoop_single B_def del: mergeLoop.simps(2))
    with step have "mergeLoop A (b # ys) = (butlast A @ [last A]) @ B"
      by simp
    with Asplit have "mergeLoop A (b # ys) = A @ B"
      by simp
    with False mS mA mB show ?thesis by simp
  next
    case True
    let ?L = "(last A)\<lparr>end' := max (end' (last A)) (end' b),
                       header := header (last A) @ '', '' @ header b\<rparr>"
    from endA ab have "end' ?L = end' b" by simp
    from mergeLoop_same_end [OF this, of ys] obtain e h R where
      B: "B = b\<lparr>end' := e, header := header b @ h\<rparr> # R" and
      L: "mergeLoop [?L] ys = ?L\<lparr>end' := e, header := header ?L @ h\<rparr> # R"
      unfolding B_def by blast
    from True endA have "mergeLoop [last A] (b # ys) = mergeLoop [?L] ys"
      by (simp add: mergeLoop_single del: mergeLoop.simps(2))
    with step L have "mergeLoop A (b # ys) =
        butlast A @ [\<lparr>start = start (last A), end' = e,
                       header = header (last A) @ '', '' @ header b @ h\<rparr>] @ R"
      by simp
    with True mS mA mB B show ?thesis by simp
  qed
qed

lemma detected_ends_sorted:
  assumes "patternLoop t ps [] = Some (secs, ps')"
  shows "sorted (map end' (sort_key start secs))"
proof -
  from patternLoop_Some [OF assms] have "list_all (\<lambda>s. start s = end' s) secs" by auto
  then have "\<forall>x \<in> set (sort_key start secs). end' x = start x"
    by (simp add: list_all_iff)
  then have "map end' (sort_key start secs) = map start (sort_key start secs)"
    by (simp only: map_eq_conv)
  then show ?thesis by (simp only: sorted_sort_key)
qed

lemma detect_twoExhibits:
  "patternLoop twoExhibits (tablePatterns newSplitter) [] =
     Some ([\<lparr>start = 0, end' = 0, header = ''Exhibit 1''\<rparr>,
            \<lparr>start = 73, end' = 73, header = ''Exhibit 2''\<rparr>], tablePatterns newSplitter)"
  by code_simp

lemma detect_captionAndSchedule:
  "patternLoop captionAndSchedule (tablePatterns newSplitter) [] =
     Some ([\<lparr>start = 0, end' = 0, header = ''Table 1.1''\<rparr>,
            \<lparr>start = 14, end' = 14, header = ''Schedule A''\<rparr>], tablePatterns newSplitter)"
  by code_simp

text \<open>
  Claim C5 (merge tolerance). Let \<open>a\<close> and \<open>b\<close> be detected regions that are
  adjacent once the detected regions are sorted by \<open>start\<close>. When the gap from the end
  of \<open>a\<close> to the start of \<open>b\<close> is at most 50, the region that holds \<open>a\<close> and the
  region that holds \<open>b\<close> are one region of the result, with the headers joined by a
  comma; when the gap is larger, the result is the merge of the regions up to \<open>a\<close>
  followed by the merge of the regions from \<open>b\<close> on.
\<close>

theorem merge_tolerance:
  assumes "patternLoop t ps [] = Some (secs, ps')"
    and "sort_key start secs = xs @ a # b # ys"
  shows "mergeOverlappingSections secs =
     (if start b \<le> end' a + 50
      then butlast (mergeOverlappingSections (xs @ [a])) @
           [\<lparr>start = start (last (mergeOverlappingSections (xs @ [a]))),
             end' = end' (hd (mergeOverlappingSections (b # ys))),
             header = header (last (mergeOverlappingSections (xs @ [a]))) @ '', '' @
                      header (hd (mergeOverlappingSections (b # ys)))\<rparr>] @
           tl (mergeOverlappingSections (b # ys))
      else mergeOverlappingSections (xs @ [a]) @ mergeOverlappingSections (b # ys))"
proof -
  have ss: "sorted (map start (xs @ a # b # ys))"
    using sorted_sort_key [of start secs] by (simp only: assms(2))
  have se: "sorted (map end' (xs @ a # b # ys))"
    using detected_ends_sorted [OF assms(1)] by (simp only: assms(2))
  have "mergeOverlappingSections secs = mergeOverlappingSections (sort_key start secs)"
    by (simp add: mergeOverlappingSections_def sort_key_id_if_sorted)
  then have "mergeOverlappingSections secs = mergeOverlappingSections (xs @ a # b # ys)"
    by (simp only: assms(2))
  with merge_adjacent [OF ss se] show ?thesis by simp
qed

theorem merge_tolerance_witness:
  "patternLoop captionAndSchedule (tablePatterns newSplitter) [] =
     Some ([\<lparr>start = 0, end' = 0, header = ''Table 1.1''\<rparr>,
            \<lparr>start = 14, end' = 14, header = ''Schedule A''\<rparr>], tablePatterns newSplitter) \<and>
   mergeOverlappingSections
     [\<lparr>start = 0, end' = 0, header = ''Table 1.1''\<rparr>,
      \<lparr>start = 14, end' = 14, header = ''Schedule A''\<rparr>] =
     [\<lparr>start = 0, end' = 14, header = ''Table 1.1, Schedule A''\<rparr>] \<and>
   patternLoop twoExhibits (tablePatterns newSplitter) [] =
     Some ([\<lparr>start = 0, end' = 0, header = ''Exhibit 1''\<rparr>,
            \<lparr>start = 73, end' = 73, header = ''Exhibit 2''\<rparr>], tablePatterns newSplitter) \<and>
   mergeOverlappingSections
     [\<lparr>start = 0, end' = 0, header = ''Exhibit 1''\<rparr>,
      \<lparr>start = 73, end' = 73, header = ''Exhibit 2''\<rparr>] =
     [\<lparr>start = 0, end' = 0, header = ''Exhibit 1''\<rparr>,
      \<lparr>start = 73, end' = 73, header = ''Exhibit 2''\<rparr>]"
proof -
  have s1: "sort_key start [\<lparr>start = 0, end' = 0, header = ''Table 1.1''\<rparr>,
      \<lparr>start = 14, end' = 14, header = ''Schedule A''\<rparr>] =
      [] @ \<lparr>start = 0, end' = 0, header = ''Table 1.1''\<rparr> #
           \<lparr>start = 14, end' = 14, header = ''Schedule A''\<rparr> # []"
    by simp
  have s2: "sort_key start [\<lparr>start = 0, end' = 0, header = ''Exhibit 1''\<rparr>,
      \<lparr>start = 73, end' = 73, header = ''Exhibit 2''\<rparr>] =
      [] @ \<lparr>start = 0, end' = 0, header = ''Exhibit 1''\<rparr> #
           \<lparr>start = 73, end' = 73, header = ''Exhibit 2''\<rparr> # []"
    by simp
  from merge_tolerance [OF detect_captionAndSchedule s1]
       merge_tolerance [OF detect_twoExhibits s2]
       detect_captionAndSchedule detect_twoExhibits
  show ?thesis
    by (simp add: mergeOverlappingSections_def)
qed

subsection \<open>When the call returns\<close>

text \<open>Every match of the five patterns is at least one character long, so each
  \<open>exec\<close> loop moves forward; the call returns whenever no line but the first looks
  like a table line, and a seed on such a line is enough for it never to return.\<close>

lemma rmatch_bounds: "rmatch m ns prev s = Some n \<Longrightarrow> minLen ns \<le> n \<and> n \<le> length s"
  by (induction m ns prev s arbitrary: n rule: rmatch.induct)
    (fastforce split: if_splits option.splits)+

lemma rsearch_bounds:
  "rsearch m ns prev s i = Some (j, e) \<Longrightarrow> i \<le> j \<and> j + minLen ns \<le> e \<and> e \<le> i + length s"
proof (induction s arbitrary: prev i)
  case Nil
  then show ?case by (auto split: option.splits dest: rmatch_bounds)
next
  case (Cons x xs)
  show ?case
  proof (cases "rmatch m ns prev (x # xs)")
    case None
    with Cons.prems have "rsearch m ns (Some x) xs (Suc i) = Some (j, e)" by simp
    from Cons.IH [OF this] show ?thesis by simp
  next
    case (Some n)
    with Cons.prems rmatch_bounds [OF Some] show ?thesis by auto
  qed
qed

lemma exec_progress:
  assumes "exec re t = (Some (j, x), re')"
  shows "lastIndex re \<le> j \<and> j + minLen (source re) \<le> lastIndex re' \<and>
         lastIndex re' \<le> length t \<and> source re' = source re"
proof -
  from assms have le: "lastIndex re \<le> length t"
    by (auto simp: exec_def split: if_splits)
  with assms obtain e where
    s: "rsearch (multiline re) (source re) (prevChar t (lastIndex re))
          (drop (lastIndex re) t) (lastIndex re) = Some (j, e)" and
    r: "re' = re\<lparr>lastIndex := e\<rparr>"
    by (auto simp: exec_def split: if_splits option.splits)
  from rsearch_bounds [OF s] le r show ?thesis by simp
qed

lemma matchLoop_returns:
  assumes pos: "0 < minLen (source re)"
    and calm: "\<And>i. \<not> hangs t (findLineStart t i)"
  shows "\<exists>secs'. matchLoop t re secs = Some (secs', re\<lparr>lastIndex := 0\<rparr>)"
  using pos
proof (induction "length t - lastIndex re" arbitrary: re secs rule: less_induct)
  case less
  show ?case
  proof (cases "exec re t")
    case (Pair r re')
    show ?thesis
    proof (cases r)
      case None
      with Pair exec_None [of re t re'] show ?thesis
        by (subst matchLoop.simps) simp
    next
      case (Some jx)
      obtain j x where jx: "jx = (j, x)" by (cases jx)
      from Pair Some jx have ex: "exec re t = (Some (j, x), re')" by simp
      note p = exec_progress [OF ex]
      from p less.prems have "length t - lastIndex re' < length t - lastIndex re"
        by linarith
      moreover from p less.prems have "0 < minLen (source re')" by simp
      ultimately obtain secs' where
        "matchLoop t re' (secs @ [\<lparr>start = j, end' = j, header = x\<rparr>]) =
           Some (secs', re'\<lparr>lastIndex := 0\<rparr>)"
        using less.hyps by blast
      with ex exec_lastIndex [OF ex] calm [of j] show ?thesis
        by (subst matchLoop.simps) (simp add: expandTableContext_eq)
    qed
  qed
qed

lemma patternLoop_returns:
  assumes calm: "\<And>i. \<not> hangs t (findLineStart t i)"
  shows "list_all (\<lambda>re. 0 < minLen (source re)) ps \<Longrightarrow>
         \<exists>secs'. patternLoop t ps secs = Some (secs', map (\<lambda>re. re\<lparr>lastIndex := 0\<rparr>) ps)"
proof (induction ps arbitrary: secs)
  case Nil
  then show ?case by simp
next
  case (Cons p ps)
  from Cons.prems have "0 < minLen (source p)" by simp
  from matchLoop_returns [OF this calm] obtain s1 where
    m: "matchLoop t p secs = Some (s1, p\<lparr>lastIndex := 0\<rparr>)" by blast
  from Cons.prems have "list_all (\<lambda>re. 0 < minLen (source re)) ps" by simp
  from Cons.IH [OF this] obtain s2 where
    "patternLoop t ps s1 = Some (s2, map (\<lambda>re. re\<lparr>lastIndex := 0\<rparr>) ps)" by blast
  with m show ?case by simp
qed

lemma newSplitter_minLen: "list_all (\<lambda>re. 0 < minLen (source re)) (tablePatterns newSplitter)"
  by (simp add: newSplitter_def tableCaption_def scheduleCaption_def exhibitCaption_def
      tableRow_def tableSeparator_def word_def)

lemma split_returns:
  assumes "\<And>i. \<not> hangs t (findLineStart t i)"
  shows "\<exists>chunks. splitTextIntoDocuments lib newSplitter t = Some (chunks, newSplitter)"
proof -
  from patternLoop_returns [OF assms newSplitter_minLen, of "[]"] obtain secs where
    "patternLoop t (tablePatterns newSplitter) [] =
       Some (secs, map (\<lambda>re. re\<lparr>lastIndex := 0\<rparr>) (tablePatterns newSplitter))"
    by blast
  moreover have "map (\<lambda>re. re\<lparr>lastIndex := 0\<rparr>) (tablePatterns newSplitter) =
      tablePatterns newSplitter"
    by (simp add: newSplitter_def)
  ultimately have "findTableSections newSplitter t =
      Some (mergeOverlappingSections secs, newSplitter)"
    by (simp add: findTableSections_def)
  then show ?thesis
    by (auto simp: splitTextIntoDocuments_def split: prod.splits)
qed

lemma matchLoop_never_returns:
  assumes "exec re t = (Some (i, x), re')" and "hangs t (findLineStart t i)"
  shows "matchLoop t re secs = None"
  using assms by (subst matchLoop.simps) (simp add: expandTableContext_eq)

subsection \<open>Spans and what is emitted for them\<close>

lemma matchLoop_bounded_aux:
  assumes "matchLoop t re secs = Some y"
  shows "\<exists>new. fst y = secs @ new \<and> list_all (\<lambda>s. end' s \<le> length t) new"
proof (rule matchLoop.raw_induct
    [where P = "\<lambda>t re secs y.
         \<exists>new. fst y = secs @ new \<and> list_all (\<lambda>s. end' s \<le> length t) new", OF _ assms])
  fix f t re secs y
  assume IH: "\<And>t re secs y. f t re secs = Some y \<Longrightarrow>
          \<exists>new. fst y = secs @ new \<and> list_all (\<lambda>s. end' s \<le> length t) new"
    and step: "(case exec re t of
        (None, pattern') \<Rightarrow> Some (secs, pattern')
      | (Some (index, matched), pattern') \<Rightarrow>
          (case expandTableContext t index of
             None \<Rightarrow> None
           | Some (s, e) \<Rightarrow>
               f t pattern' (secs @ [\<lparr>start = s, end' = e, header = matched\<rparr>]))) = Some y"
  show "\<exists>new. fst y = secs @ new \<and> list_all (\<lambda>s. end' s \<le> length t) new"
  proof (cases "exec re t")
    case (Pair r re1)
    show ?thesis
    proof (cases r)
      case None
      with Pair step show ?thesis by auto
    next
      case (Some im)
      obtain i m where im: "im = (i, m)" by (cases im)
      from Pair Some im have ex: "exec re t = (Some (i, m), re1)" by simp
      from ex step obtain s e where
        ec: "expandTableContext t i = Some (s, e)" and
        rec: "f t re1 (secs @ [\<lparr>start = s, end' = e, header = m\<rparr>]) = Some y"
        by (auto split: option.splits)
      from ec have se: "s = i \<and> e = i"
        by (simp add: expandTableContext_eq split: if_splits)
      from exec_progress [OF ex] have "i \<le> length t" by simp
      with IH [OF rec] se show ?thesis by auto
    qed
  qed
qed

lemma patternLoop_bounded:
  "patternLoop t ps secs = Some (secs', ps') \<Longrightarrow>
     \<exists>new. secs' = secs @ new \<and> list_all (\<lambda>s. end' s \<le> length t) new"
proof (induction ps arbitrary: secs secs' ps')
  case Nil
  then show ?case by simp
next
  case (Cons p ps)
  from Cons.prems obtain s1 p1 s2 ps2 where
    m: "matchLoop t p secs = Some (s1, p1)" and
    r: "patternLoop t ps s1 = Some (s2, ps2)" and
    eq: "secs' = s2"
    by (auto split: option.splits)
  from matchLoop_bounded_aux [OF m] Cons.IH [OF r] eq show ?case
    by auto
qed

lemma mergeLoop_bounded:
  "list_all (\<lambda>a. end' a \<le> n) (l # rest) \<Longrightarrow> list_all (\<lambda>a. end' a \<le> n) (mergeLoop [l] rest)"
proof (induction rest arbitrary: l)
  case Nil
  then show ?case by simp
next
  case (Cons c rest)
  show ?case
  proof (cases "start c \<le> end' l + 50")
    case True
    let ?l = "l\<lparr>end' := max (end' l) (end' c), header := header l @ '', '' @ header c\<rparr>"
    from Cons.prems have "list_all (\<lambda>a. end' a \<le> n) (?l # rest)" by simp
    from Cons.IH [OF this] True show ?thesis
      by (simp add: mergeLoop_single del: mergeLoop.simps(2))
  next
    case False
    from Cons.prems have "list_all (\<lambda>a. end' a \<le> n) (c # rest)" by simp
    from Cons.IH [OF this] False Cons.prems show ?thesis
      by (simp add: mergeLoop_single del: mergeLoop.simps(2))
  qed
qed

lemma findTableSections_bounded:
  assumes "findTableSections this t = Some (regions, this1)"
  shows "list_all (\<lambda>a. end' a \<le> length t) regions"
proof -
  from assms obtain secs ps where
    p: "patternLoop t (tablePatterns this) [] = Some (secs, ps)" and
    r: "regions = mergeOverlappingSections secs"
    by (auto simp: findTableSections_def split: option.splits)
  from patternLoop_bounded [OF p] have b: "list_all (\<lambda>s. end' s \<le> length t) secs" by simp
  show ?thesis
  proof (cases "sort_key start secs")
    case Nil
    with r show ?thesis by (simp add: mergeOverlappingSections_def)
  next
    case (Cons l rest)
    have "set (sort_key start secs) = set secs" by simp
    with b have "list_all (\<lambda>s. end' s \<le> length t) (sort_key start secs)"
      unfolding list_all_iff by blast
    with Cons have "list_all (\<lambda>s. end' s \<le> length t) (l # rest)" by simp
    from mergeLoop_bounded [OF this] Cons r show ?thesis
      by (simp add: mergeOverlappingSections_def)
  qed
qed

lemma tiles_append: "tiles xs i j \<Longrightarrow> tiles ys j n \<Longrightarrow> tiles (xs @ ys) i n"
  by (induction xs arbitrary: i) auto

lemma tiles_le: "tiles ss i n \<Longrightarrow> i \<le> n"
proof (induction ss arbitrary: i)
  case Nil
  then show ?case by simp
next
  case (Cons s ss)
  from Cons.prems have "i \<le> spanTo s" and "tiles ss (spanTo s) n" by simp_all
  with Cons.IH [of "spanTo s"] show ?case by simp
qed

lemma drop_take_join:
  "i \<le> j \<Longrightarrow> j \<le> n \<Longrightarrow> drop i (take j t) @ drop j (take n t) = drop i (take n t)"
proof -
  assume ij: "i \<le> j" and jn: "j \<le> n"
  from jn have "take j (take n t) = take j t" by (simp add: min_absorb1)
  with append_take_drop_id [of j "take n t"]
  have split: "take n t = take j t @ drop j (take n t)" by simp
  show ?thesis
  proof (cases "i \<le> length t")
    case True
    with ij have "i \<le> length (take j t)" by simp
    then have "drop i (take j t @ drop j (take n t)) = drop i (take j t) @ drop j (take n t)"
      by simp
    with split show ?thesis by simp
  next
    case False
    with ij show ?thesis by simp
  qed
qed

lemma tiles_concat: "tiles ss i n \<Longrightarrow> concat (map (spanText t) ss) = drop i (take n t)"
proof (induction ss arbitrary: i)
  case Nil
  then show ?case by simp
next
  case (Cons s ss)
  from Cons.prems have f: "spanFrom s = i" and le: "i \<le> spanTo s" and
    rest: "tiles ss (spanTo s) n" by simp_all
  from tiles_le [OF rest] have "spanTo s \<le> n" .
  with Cons.IH [OF rest] f le show ?case
    by (simp add: spanText_def drop_take_join)
qed

lemma rendered_table:
  "rendered lib t (TableSpan a b h) = [createTableChunk t a b h]"
proof -
  have before: "nat (max 0 (int a - 200)) = a - 200"
    by arith
  have after: "drop b (take (min (length t) (b + 200)) t) = take 200 (drop b t)"
    by (cases "b \<le> length t") (simp_all add: drop_take min_def)
  show ?thesis
    unfolding createTableChunk_def Let_def slice_drop_take before after by simp
qed

lemma emitLoop_spans:
  "list_all (\<lambda>a. start a \<le> end' a) rs \<Longrightarrow>
   sorted_wrt (\<lambda>a b. end' a + 50 < start b) rs \<Longrightarrow>
   list_all (\<lambda>a. li \<le> start a) rs \<Longrightarrow>
   emitLoop lib t rs chunks li = (chunks', li') \<Longrightarrow>
   \<exists>ss. tiles ss li li' \<and> chunks' = chunks @ concat (map (rendered lib t) ss) \<and>
        (li' = li \<or> li' \<in> end' ` set rs)"
proof (induction rs arbitrary: chunks li)
  case Nil
  then have "tiles [] li li' \<and> chunks' = chunks @ concat (map (rendered lib t) []) \<and>
      li' = li" by auto
  then show ?case by blast
next
  case (Cons r rs)
  let ?pre = "if li < start r then [TextSpan li (start r)] else []"
  let ?here = "?pre @ [TableSpan (start r) (end' r) (header r)]"
  let ?c2 = "chunks @ concat (map (rendered lib t) ?here)"
  from Cons.prems(3) have le: "li \<le> start r" by simp
  from Cons.prems(1) have se: "start r \<le> end' r" by simp
  from le se have here: "tiles ?here li (end' r)" by auto
  have next_le: "list_all (\<lambda>a. end' r \<le> start a) rs"
    using Cons.prems(2) by (auto simp: list_all_iff)
  have "?c2 =
      (if start r > li then chunks @ lib superParams [slice t li (start r)] else chunks) @
      [createTableChunk t (start r) (end' r) (header r)]"
    by (simp add: rendered_table slice_drop_take del: rendered.simps(2))
  with Cons.prems(4) have "emitLoop lib t rs ?c2 (end' r) = (chunks', li')"
    by (simp only: emitLoop.simps Let_def)
  with Cons.IH [of "end' r" ?c2] Cons.prems(1,2) next_le obtain ss where
    ss: "tiles ss (end' r) li'" and
    c: "chunks' = ?c2 @ concat (map (rendered lib t) ss)" and
    l: "li' = end' r \<or> li' \<in> end' ` set rs"
    by auto
  from tiles_append [OF here ss] have "tiles (?here @ ss) li li'" .
  moreover from c have "chunks' = chunks @ concat (map (rendered lib t) (?here @ ss))"
    by simp
  moreover from l have "li' = li \<or> li' \<in> end' ` set (r # rs)" by auto
  ultimately show ?case by blast
qed

lemma split_captionAndSchedule:
  "splitTextIntoDocuments wholeText newSplitter captionAndSchedule =
     Some ([\<lparr>pageContent = [newline, newline] @ ''[TABLE: Table 1.1, Schedule A]'' @ [newline] @
                             ''Table 1.1 and '' @ [newline] @ ''[END TABLE]'' @
                             [newline, newline] @ ''Schedule A'',
              metadata = [(''type'', Str ''table''), (''header'', Str ''Table 1.1, Schedule A''),
                          (''table_content'', Str ''Table 1.1 and '')]\<rparr>,
            \<lparr>pageContent = ''Schedule A'', metadata = []\<rparr>], newSplitter)"
  by code_simp

lemma split_leadingBlank:
  "splitTextIntoDocuments trimmedText newSplitter leadingBlank =
     Some ([\<lparr>pageContent = '' '' @ [newline, newline] @ ''[TABLE: Exhibit 7]'' @
                             [newline, newline] @ ''[END TABLE]'' @ [newline, newline] @
                             ''Exhibit 7'',
              metadata = [(''type'', Str ''table''), (''header'', Str ''Exhibit 7''),
                          (''table_content'', Str [])]\<rparr>,
            \<lparr>pageContent = ''Exhibit 7'', metadata = [(''loc'', Other ())]\<rparr>], newSplitter)"
  by code_simp

text \<open>
  Claim C2 (order preservation and coverage), as amended. Whenever
  \<open>splitTextIntoDocuments\<close> returns, the text is cut into consecutive spans from offset 0
  to the end of the text, so that the texts of the spans, in order, concatenate to the
  input, and the chunks returned are, span by span in that order, the chunks of the
  library's splitter for the text of a text span, or the one table chunk of a table span:
  the text of the span between the markers, with the context around them. No part of the
  input is left out of the spans, repeated or reordered; what the library's splitter does
  to the text of a span is its own.
\<close>

theorem spans_tile_text:
  assumes "splitTextIntoDocuments lib this t = Some (chunks, this')"
  shows "\<exists>ss. tiles ss 0 (length t) \<and> concat (map (spanText t) ss) = t \<and>
              chunks = concat (map (rendered lib t) ss)"
proof -
  from assms obtain regions this1 where
    f: "findTableSections this t = Some (regions, this1)"
    by (auto simp: splitTextIntoDocuments_def split: option.splits)
  note inv = findTableSections_Some [OF f]
  note bound = findTableSections_bounded [OF f]
  have "\<exists>ss. tiles ss 0 (length t) \<and> chunks = concat (map (rendered lib t) ss)"
  proof (cases "regions = []")
    case True
    with assms f have "chunks = concat (map (rendered lib t) [TextSpan 0 (length t)])"
      by (simp add: splitTextIntoDocuments_def)
    moreover have "tiles [TextSpan 0 (length t)] 0 (length t)" by simp
    ultimately show ?thesis by blast
  next
    case False
    obtain cs li where e: "emitLoop lib t regions [] 0 = (cs, li)"
      by (cases "emitLoop lib t regions [] 0")
    from emitLoop_spans [OF _ _ _ e] inv obtain ss where
      ss: "tiles ss 0 li" and c: "cs = concat (map (rendered lib t) ss)" and
      l: "li = 0 \<or> li \<in> end' ` set regions"
      by (auto simp: list_all_iff)
    from l bound have li: "li \<le> length t" by (auto simp: list_all_iff)
    show ?thesis
    proof (cases "li < length t")
      case True
      with assms f False e have "chunks = cs @ lib superParams [drop li t]"
        by (simp add: splitTextIntoDocuments_def)
      with c have "chunks = concat (map (rendered lib t) (ss @ [TextSpan li (length t)]))"
        by simp
      moreover from True have "tiles [TextSpan li (length t)] li (length t)" by simp
      from tiles_append [OF ss this] have "tiles (ss @ [TextSpan li (length t)]) 0 (length t)" .
      ultimately show ?thesis by blast
    next
      case nl: False
      with assms f False e have "chunks = cs"
        by (simp add: splitTextIntoDocuments_def)
      moreover from nl li have "li = length t" by simp
      ultimately show ?thesis using ss c by blast
    qed
  qed
  then obtain ss where
    t: "tiles ss 0 (length t)" and c: "chunks = concat (map (rendered lib t) ss)" by blast
  from tiles_concat [OF t, of t] have "concat (map (spanText t) ss) = t" by simp
  with t c show ?thesis by blast
qed

theorem spans_tile_text_witness:
  "splitTextIntoDocuments wholeText newSplitter captionAndSchedule =
     Some ([\<lparr>pageContent = [newline, newline] @ ''[TABLE: Table 1.1, Schedule A]'' @ [newline] @
                             ''Table 1.1 and '' @ [newline] @ ''[END TABLE]'' @
                             [newline, newline] @ ''Schedule A'',
              metadata = [(''type'', Str ''table''), (''header'', Str ''Table 1.1, Schedule A''),
                          (''table_content'', Str ''Table 1.1 and '')]\<rparr>,
            \<lparr>pageContent = ''Schedule A'', metadata = []\<rparr>], newSplitter) \<and>
   (\<exists>ss. tiles ss 0 (length captionAndSchedule) \<and>
      concat (map (spanText captionAndSchedule) ss) = captionAndSchedule \<and>
      [\<lparr>pageContent = [newline, newline] @ ''[TABLE: Table 1.1, Schedule A]'' @ [newline] @
                        ''Table 1.1 and '' @ [newline] @ ''[END TABLE]'' @
                        [newline, newline] @ ''Schedule A'',
         metadata = [(''type'', Str ''table''), (''header'', Str ''Table 1.1, Schedule A''),
                     (''table_content'', Str ''Table 1.1 and '')]\<rparr>,
       \<lparr>pageContent = ''Schedule A'', metadata = []\<rparr>] =
      concat (map (rendered wholeText captionAndSchedule) ss)) \<and>
   tiles [TableSpan 0 14 ''Table 1.1, Schedule A'', TextSpan 14 24] 0
     (length captionAndSchedule) \<and>
   map (spanText captionAndSchedule) [TableSpan 0 14 ''Table 1.1, Schedule A'', TextSpan 14 24] =
     [''Table 1.1 and '', ''Schedule A'']"
proof -
  have "tiles [TableSpan 0 14 ''Table 1.1, Schedule A'', TextSpan 14 24] 0
      (length captionAndSchedule)"
    by (simp add: captionAndSchedule_def)
  moreover have "map (spanText captionAndSchedule)
      [TableSpan 0 14 ''Table 1.1, Schedule A'', TextSpan 14 24] =
      [''Table 1.1 and '', ''Schedule A'']"
    by (simp add: captionAndSchedule_def spanText_def)
  ultimately show ?thesis
    using spans_tile_text [OF split_captionAndSchedule] split_captionAndSchedule by simp
qed

text \<open>
  Claim C2 as stated does not hold: with a splitter that trims as the library's does, the
  text of a blank followed by a caption gives a table chunk with an empty table text and
  one text chunk; their contents, markers and context stripped, concatenate to the caption
  without the blank before it.
\<close>

theorem leading_blank_not_reproduced:
  "splitTextIntoDocuments trimmedText newSplitter leadingBlank =
     Some ([\<lparr>pageContent = '' '' @ [newline, newline] @ ''[TABLE: Exhibit 7]'' @
                             [newline, newline] @ ''[END TABLE]'' @ [newline, newline] @
                             ''Exhibit 7'',
              metadata = [(''type'', Str ''table''), (''header'', Str ''Exhibit 7''),
                          (''table_content'', Str [])]\<rparr>,
            \<lparr>pageContent = ''Exhibit 7'', metadata = [(''loc'', Other ())]\<rparr>], newSplitter) \<and>
   concat (map stripped
     [\<lparr>pageContent = '' '' @ [newline, newline] @ ''[TABLE: Exhibit 7]'' @
                        [newline, newline] @ ''[END TABLE]'' @ [newline, newline] @
                        ''Exhibit 7'',
        metadata = [(''type'', Str ''table''), (''header'', Str ''Exhibit 7''),
                    (''table_content'', Str [])]\<rparr>,
      \<lparr>pageContent = ''Exhibit 7'', metadata = [(''loc'', Other ())]\<rparr>]) = ''Exhibit 7'' \<and>
   ''Exhibit 7'' \<noteq> leadingBlank"
proof -
  have "concat (map stripped
     [\<lparr>pageContent = '' '' @ [newline, newline] @ ''[TABLE: Exhibit 7]'' @
                        [newline, newline] @ ''[END TABLE]'' @ [newline, newline] @
                        ''Exhibit 7'',
        metadata = [(''type'', Str ''table''), (''header'', Str ''Exhibit 7''),
                    (''table_content'', Str [])]\<rparr>,
      \<lparr>pageContent = ''Exhibit 7'', metadata = [(''loc'', Other ())]\<rparr>]) = ''Exhibit 7''"
    by code_simp
  with split_leadingBlank show ?thesis by (simp add: leadingBlank_def)
qed

subsection \<open>Where expansion stops short or never stops\<close>

lemma hang_rateTable: "hangs rateTable (findLineStart rateTable 28)"
  by code_simp

lemma rateTable_caption:
  "matchLoop rateTable \<lparr>source = tableCaption, multiline = False, lastIndex = 0\<rparr> [] =
     Some ([\<lparr>start = 18, end' = 18, header = ''Table 2.1''\<rparr>],
           \<lparr>source = tableCaption, multiline = False, lastIndex = 0\<rparr>)"
  by code_simp

lemma rateTable_schedule:
  "matchLoop rateTable \<lparr>source = scheduleCaption, multiline = False, lastIndex = 0\<rparr> secs =
     Some (secs, \<lparr>source = scheduleCaption, multiline = False, lastIndex = 0\<rparr>)"
  by (rule matchLoop_no_match) code_simp+

lemma rateTable_exhibit:
  "matchLoop rateTable \<lparr>source = exhibitCaption, multiline = False, lastIndex = 0\<rparr> secs =
     Some (secs, \<lparr>source = exhibitCaption, multiline = False, lastIndex = 0\<rparr>)"
  by (rule matchLoop_no_match) code_simp+

lemma rateTable_row_exec:
  "exec \<lparr>source = tableRow, multiline = False, lastIndex = 0\<rparr> rateTable =
     (Some (28, ''| Rate | Term |''), \<lparr>source = tableRow, multiline = False, lastIndex = 43\<rparr>)"
  by code_simp

lemma rateTable_row:
  "matchLoop rateTable \<lparr>source = tableRow, multiline = False, lastIndex = 0\<rparr> secs = None"
  using rateTable_row_exec hang_rateTable by (rule matchLoop_never_returns)

text \<open>
  Claim C8 (totality). The claim does not hold of the code: on the text of a caption
  followed by a three-row table between two paragraphs, the first loop of
  \<open>expandTableContext\<close> never exits for the first table row, and
  \<open>splitTextIntoDocuments\<close> does not return, whatever the library's splitter is.
\<close>

theorem rate_table_never_returns:
  "splitTextIntoDocuments lib newSplitter rateTable = None"
  by (simp add: splitTextIntoDocuments_def findTableSections_def newSplitter_def
      rateTable_caption rateTable_schedule rateTable_exhibit rateTable_row)

text \<open>
  Claim C3 (maximal expansion). The claim does not hold of the code: in a text of two
  table rows, the seed at offset 0 is expanded to the empty region at 0, although both
  lines satisfy the table-line predicate, and for the seed at offset 4 the expansion never
  returns.
\<close>

theorem expansion_not_maximal:
  "isTableLine (slice twoRows 0 3) \<and> isTableLine (slice twoRows 4 7) \<and>
   expandTableContext twoRows 0 = Some (0, 0) \<and>
   expandTableContext twoRows 4 = None"
proof -
  have "\<not> hangs twoRows (findLineStart twoRows 0)" by code_simp
  moreover have "hangs twoRows (findLineStart twoRows 4)" by code_simp
  moreover have "isTableLine (slice twoRows 0 3)" by code_simp
  moreover have "isTableLine (slice twoRows 4 7)" by code_simp
  ultimately show ?thesis by (simp add: expandTableContext_eq)
qed

text \<open>
  Claim C1 (table atomicity). The claim does not hold of the code: for a text that is one
  table row and a line break, where the row pattern matches the whole row, the one table
  chunk has an empty \<open>table_content\<close>; the row is in the context after the markers
  and in the chunks of the library's splitter, which is run on the whole text.
\<close>

theorem table_row_not_in_table_content:
  "splitTextIntoDocuments lib newSplitter oneRow =
     Some (\<lparr>pageContent = [newline, newline] @ ''[TABLE: |Rate|Term|]'' @ [newline, newline] @
                            ''[END TABLE]'' @ [newline, newline] @ oneRow,
             metadata = [(''type'', Str ''table''), (''header'', Str ''|Rate|Term|''),
                         (''table_content'', Str [])]\<rparr> #
           lib superParams [oneRow], newSplitter)"
proof -
  have "findTableSections newSplitter oneRow =
      Some ([\<lparr>start = 0, end' = 0, header = ''|Rate|Term|''\<rparr>], newSplitter)"
    by code_simp
  then show ?thesis
    by (simp add: splitTextIntoDocuments_def createTableChunk_def Let_def slice_def oneRow_def)
qed

end
